theory Spec2Isabelle
  imports Main
begin

section \<open>Strings and characters\<close>

text \<open>
  Python strings are modelled as \<^typ>\<open>string\<close>; a \<^typ>\<open>char\<close> stands for one code
  point in the range 0..255. On that range \<open>str.isspace\<close>, \<open>str.lower\<close>, the class
  \<open>\d\<close> and the class \<open>[-._;()/:A-Z0-9]\<close> under \<open>re.IGNORECASE\<close> are the functions
  below. Code points above 255 are outside the model, and every statement below is about
  strings of code points 0..255 only: above 255, \<open>\d\<close> also matches the other decimal
  digits of Unicode, the class under \<open>re.IGNORECASE\<close> also matches U+0131 and U+017F,
  and \<open>str.lower\<close> can change the length of a string (U+0130).
\<close>

definition isspace :: "char \<Rightarrow> bool" where
  \<comment> \<open>the characters \<open>str.strip()\<close> removes: TAB..CR, FS..US, SPACE, NEL, NBSP\<close>
  "isspace c = (let n = (of_char c :: nat) in
     (9 \<le> n \<and> n \<le> 13) \<or> (28 \<le> n \<and> n \<le> 32) \<or> n = 133 \<or> n = 160)"

definition lower_char :: "char \<Rightarrow> char" where
  \<comment> \<open>\<open>str.lower()\<close> on one code point: A..Z and the Latin-1 capitals move up by 32\<close>
  "lower_char c = (let n = (of_char c :: nat) in
     if (65 \<le> n \<and> n \<le> 90) \<or> (192 \<le> n \<and> n \<le> 222 \<and> n \<noteq> 215)
     then char_of (n + 32) else c)"

definition lower :: "string \<Rightarrow> string" where
  "lower s = map lower_char s"

definition strip :: "string \<Rightarrow> string" where
  "strip s = rev (dropWhile isspace (rev (dropWhile isspace s)))"

definition isdigit :: "char \<Rightarrow> bool" where
  \<comment> \<open>\<open>\d\<close> on code points 0..255: the ten ASCII digits\<close>
  "isdigit c = (let n = (of_char c :: nat) in 48 \<le> n \<and> n \<le> 57)"

definition isalpha_ascii :: "char \<Rightarrow> bool" where
  \<comment> \<open>\<open>A-Z\<close> under \<open>re.IGNORECASE\<close> on code points 0..255: the ASCII letters of
      both cases\<close>
  "isalpha_ascii c = (let n = (of_char c :: nat) in
     (65 \<le> n \<and> n \<le> 90) \<or> (97 \<le> n \<and> n \<le> 122))"

definition doi_char :: "char \<Rightarrow> bool" where
  \<comment> \<open>\<open>[-._;()/:A-Z0-9]\<close> under \<open>re.IGNORECASE\<close> on code points 0..255\<close>
  "doi_char c = (c \<in> set ''-._;()/:'' \<or> isalpha_ascii c \<or> isdigit c)"

section \<open>The regular expression of \<open>normalize_doi\<close>\<close>

text \<open>
  \<open>re.search(r'(10\.\d{4,9}/[-._;()/:A-Z0-9]+)', s, re.IGNORECASE)\<close>: the leftmost
  position at which the pattern matches, the quantifiers greedy with backtracking.
\<close>

definition match_tail :: "string \<Rightarrow> string option" where
  \<comment> \<open>\<open>/[-._;()/:A-Z0-9]+\<close> at the start of the string; the final greedy \<open>+\<close> takes the
      longest run and needs one character\<close>
  "match_tail s = (case s of
       [] \<Rightarrow> None
     | c # t \<Rightarrow> if c = CHR ''/'' \<and> takeWhile doi_char t \<noteq> []
               then Some (c # takeWhile doi_char t) else None)"

fun match_digits :: "nat \<Rightarrow> string \<Rightarrow> string option" where
  \<comment> \<open>\<open>\d{4,k}\<close> followed by the tail: \<open>k\<close> digits are tried first, then one fewer,
      down to four\<close>
  "match_digits k s =
     (if k < 4 then None
      else if k \<le> length s \<and> list_all isdigit (take k s)
      then (case match_tail (drop k s) of
              Some r \<Rightarrow> Some (take k s @ r)
            | None \<Rightarrow> match_digits (k - 1) s)
      else match_digits (k - 1) s)"

declare match_digits.simps [simp del]

definition match_at :: "string \<Rightarrow> string option" where
  \<comment> \<open>the whole pattern at the start of the string\<close>
  "match_at s = (if take 3 s = ''10.''
                 then map_option (\<lambda>r. ''10.'' @ r) (match_digits 9 (drop 3 s))
                 else None)"

fun re_search :: "string \<Rightarrow> string option" where
  \<comment> \<open>\<open>re.search\<close>: the match at the leftmost position that has one; group 1\<close>
  "re_search [] = match_at []"
| "re_search (c # cs) = (case match_at (c # cs) of
                           Some m \<Rightarrow> Some m
                         | None \<Rightarrow> re_search cs)"

section \<open>Diagnostics\<close>

type_synonym entry = "(string \<times> string) list"

datatype log_event =
    Warn_doi_pattern string
  | Warn_missing_id_or_type entry
  | Warn_duplicate_id string
  | Warn_duplicate_id_x "string option"
  | Info_dois_y nat
  | Info_removing "string option" string
  | Info_removed nat

section \<open>\<open>normalize_doi\<close>\<close>

fun normalize_doi :: "string option \<Rightarrow> string \<times> log_event list" where
  "normalize_doi None = ([], [])"
| "normalize_doi (Some doi_string) =
     (if doi_string = [] then ([], [])
      else let s = lower (strip doi_string) in
        (case re_search s of
           Some m \<Rightarrow> (m, [])
         | None \<Rightarrow> (s, [Warn_doi_pattern s])))"

section \<open>Entries\<close>

text \<open>
  An entry is a Python \<open>dict\<close> from field names to string values, given by its items in
  insertion order; the keys \<open>ID\<close> and \<open>ENTRYTYPE\<close> carry the record identifier and
  the type tag. The functions below work on the entries of a loaded database
  (\<open>bib_database.entries\<close>) and return the entries handed to the writer together with
  the records logged on the way; reading and writing the files is outside the model.
\<close>

definition dict_get :: "entry \<Rightarrow> string \<Rightarrow> string option" where
  \<comment> \<open>\<open>entry.get(key)\<close>\<close>
  "dict_get e key = map_of e key"

definition dict_get_or :: "entry \<Rightarrow> string \<Rightarrow> string \<Rightarrow> string" where
  \<comment> \<open>\<open>entry.get(key, default)\<close>\<close>
  "dict_get_or e key dflt = (case map_of e key of None \<Rightarrow> dflt | Some v \<Rightarrow> v)"

definition is_falsy :: "string option \<Rightarrow> bool" where
  \<comment> \<open>\<open>not v\<close> for a value that is \<open>None\<close> or a string\<close>
  "is_falsy v = (case v of None \<Rightarrow> True | Some s \<Rightarrow> s = [])"

section \<open>\<open>standardize_bibtex_file\<close>\<close>

definition essential_fields :: "string list" where
  "essential_fields = [''doi'', ''title'', ''abstract'', ''keywords'', ''author'', ''year'',
     ''publisher'', ''journal'', ''booktitle'', ''pages'', ''volume'', ''number'']"

definition standardized_entry_data :: "entry \<Rightarrow> (string \<rightharpoonup> string)" where
  \<comment> \<open>\<open>{k.lower(): v for k, v in entry.items() if k not in ['ID', 'ENTRYTYPE']}\<close>\<close>
  "standardized_entry_data e =
     fold (\<lambda>(k, v) d. if k \<in> set [''ID'', ''ENTRYTYPE''] then d else d(lower k \<mapsto> v))
       e Map.empty"

definition fill_essential :: "(string \<rightharpoonup> string) \<Rightarrow> (string \<rightharpoonup> string)" where
  \<comment> \<open>every essential field that is not a key gets the empty string\<close>
  "fill_essential d =
     fold (\<lambda>field m. if m field = None then m(field \<mapsto> []) else m) essential_fields d"

definition consolidate_journal :: "(string \<rightharpoonup> string) \<Rightarrow> (string \<rightharpoonup> string)" where
  \<comment> \<open>\<open>if not d.get('journal') and d.get('booktitle'): d['journal'] = d['booktitle']\<close>\<close>
  "consolidate_journal d =
     (if is_falsy (d ''journal'') \<and> \<not> is_falsy (d ''booktitle'')
      then (case d ''booktitle'' of Some b \<Rightarrow> d(''journal'' \<mapsto> b) | None \<Rightarrow> d)
      else d)"

definition standardized_fields :: "entry \<Rightarrow> (string \<rightharpoonup> string) \<times> log_event list" where
  \<comment> \<open>\<open>standardized_entry_data\<close> after the normalization of \<open>doi\<close>, the filling of the
      essential fields and the consolidation of \<open>journal\<close>; the records logged\<close>
  "standardized_fields e =
     (let d0 = standardized_entry_data e;
          raw_doi = (case d0 ''doi'' of None \<Rightarrow> [] | Some v \<Rightarrow> v);
          (doi, lg) = normalize_doi (Some raw_doi)
      in (consolidate_journal (fill_essential (d0(''doi'' \<mapsto> doi))), lg))"

definition final_entry :: "string \<Rightarrow> string \<Rightarrow> entry \<Rightarrow> entry \<times> log_event list" where
  \<comment> \<open>\<open>final_entry\<close>: \<open>ID\<close>, \<open>ENTRYTYPE\<close>, then the essential fields in their order\<close>
  "final_entry original_id original_entrytype e =
     (let (d, lg) = standardized_fields e
      in ([(''ID'', original_id), (''ENTRYTYPE'', original_entrytype)] @
          map (\<lambda>field. (field, case d field of None \<Rightarrow> [] | Some v \<Rightarrow> v)) essential_fields,
          lg))"

definition standardize_step ::
  "string set \<Rightarrow> entry \<Rightarrow> string set \<times> entry list \<times> log_event list" where
  \<comment> \<open>one iteration: the new \<open>processed_ids\<close>, the entries appended, the records logged\<close>
  "standardize_step processed_ids e =
     (case (dict_get e ''ID'', dict_get e ''ENTRYTYPE'') of
        (Some original_id, Some original_entrytype) \<Rightarrow>
          if original_id = [] \<or> original_entrytype = []
          then (processed_ids, [], [Warn_missing_id_or_type e])
          else if original_id \<in> processed_ids
          then (processed_ids, [], [Warn_duplicate_id original_id])
          else (let (f, lg) = final_entry original_id original_entrytype e
                in (insert original_id processed_ids, [f], lg))
      | _ \<Rightarrow> (processed_ids, [], [Warn_missing_id_or_type e]))"

fun standardize_loop :: "string set \<Rightarrow> entry list \<Rightarrow> entry list \<times> log_event list" where
  "standardize_loop processed_ids [] = ([], [])"
| "standardize_loop processed_ids (e # es) =
     (let (processed_ids', out, lg) = standardize_step processed_ids e;
          (outs, lgs) = standardize_loop processed_ids' es
      in (out @ outs, lg @ lgs))"

definition standardize_bibtex_file :: "entry list \<Rightarrow> entry list \<times> log_event list" where
  \<comment> \<open>\<open>standardized_entries\<close> and the log, from \<open>bib_database.entries\<close>\<close>
  "standardize_bibtex_file entries = standardize_loop {} entries"

section \<open>\<open>remove_duplicates_by_doi\<close>\<close>

fun collect_dois_y :: "string set \<Rightarrow> entry list \<Rightarrow> string set" where
  "collect_dois_y dois_y [] = dois_y"
| "collect_dois_y dois_y (e # es) =
     (let doi = strip (dict_get_or e ''doi'' [])
      in collect_dois_y (if doi \<noteq> [] then insert doi dois_y else dois_y) es)"

definition filter_step ::
  "string set \<Rightarrow> string option set \<Rightarrow> entry
     \<Rightarrow> string option set \<times> entry list \<times> nat \<times> log_event list" where
  \<comment> \<open>one iteration: the new \<open>processed_ids_x\<close>, the entries appended, the increment of
      \<open>removed_count\<close>, the records logged\<close>
  "filter_step dois_y processed_ids_x e =
     (let entry_id = dict_get e ''ID'' in
      if entry_id \<in> processed_ids_x
      then (processed_ids_x, [], 0, [Warn_duplicate_id_x entry_id])
      else (let doi_x = strip (dict_get_or e ''doi'' []) in
            if doi_x = [] \<or> doi_x \<notin> dois_y
            then (insert entry_id processed_ids_x, [e], 0, [])
            else (insert entry_id processed_ids_x, [], 1, [Info_removing entry_id doi_x])))"

fun filter_loop ::
  "string set \<Rightarrow> string option set \<Rightarrow> entry list \<Rightarrow> entry list \<times> nat \<times> log_event list" where
  "filter_loop dois_y processed_ids_x [] = ([], 0, [])"
| "filter_loop dois_y processed_ids_x (e # es) =
     (let (processed_ids_x', out, n, lg) = filter_step dois_y processed_ids_x e;
          (outs, ns, lgs) = filter_loop dois_y processed_ids_x' es
      in (out @ outs, n + ns, lg @ lgs))"

definition remove_duplicates_by_doi ::
  "entry list \<Rightarrow> entry list \<Rightarrow> entry list \<times> log_event list" where
  \<comment> \<open>\<open>unique_entries_x\<close> and the log, from \<open>db_x.entries\<close> and \<open>db_y.entries\<close>\<close>
  "remove_duplicates_by_doi db_x db_y =
     (let dois_y = collect_dois_y {} db_y;
          (unique_entries_x, removed_count, lg) = filter_loop dois_y {} db_x
      in (unique_entries_x, Info_dois_y (card dois_y) # lg @ [Info_removed removed_count]))"

section \<open>Notions of the specification\<close>

definition doi_form :: "string \<Rightarrow> bool" where
  \<comment> \<open>the identifier shape: \<open>10.\<close>, four to nine digits \<open>0\<close>..\<open>9\<close>, \<open>/\<close>, one or more
      characters of the identifier class (ASCII letters, digits, \<open>-._;()/:\<close>)\<close>
  "doi_form m =
     (take 3 m = ''10.'' \<and>
      (let ds = takeWhile isdigit (drop 3 m); rest = dropWhile isdigit (drop 3 m)
       in 4 \<le> length ds \<and> length ds \<le> 9 \<and>
          (case rest of [] \<Rightarrow> False
           | c # r \<Rightarrow> c = CHR ''/'' \<and> r \<noteq> [] \<and> list_all doi_char r)))"

definition doi_at :: "string \<Rightarrow> nat \<Rightarrow> bool" where
  \<comment> \<open>a substring of the identifier shape starts at position \<open>i\<close> of \<open>s\<close>\<close>
  "doi_at s i = list_ex (\<lambda>n. doi_form (take n (drop i s))) [0..<Suc (length s)]"

definition contains_doi :: "string \<Rightarrow> bool" where
  \<comment> \<open>some substring of \<open>s\<close> has the identifier shape\<close>
  "contains_doi s = list_ex (doi_at s) [0..<length s]"

definition normalized_identifier :: "entry \<Rightarrow> string" where
  \<comment> \<open>the identifier the deduplicator reads from a record\<close>
  "normalized_identifier e = strip (dict_get_or e ''doi'' [])"

definition not_in_y :: "entry list \<Rightarrow> entry \<Rightarrow> bool" where
  \<comment> \<open>the record's identifier is empty or is not a non-empty identifier of \<open>y\<close>\<close>
  "not_in_y y e =
     (normalized_identifier e = [] \<or>
      normalized_identifier e \<notin> set (filter (\<lambda>d. d \<noteq> []) (map normalized_identifier y)))"

definition id_or_type_missing :: "entry \<Rightarrow> bool" where
  "id_or_type_missing e = (is_falsy (dict_get e ''ID'') \<or> is_falsy (dict_get e ''ENTRYTYPE''))"

section \<open>Properties of the characters and of the pattern\<close>

subsection \<open>Characters\<close>

lemma of_char_lower_char:
  "(of_char (lower_char c) :: nat) =
     (if (65 \<le> (of_char c :: nat) \<and> (of_char c :: nat) \<le> 90) \<or>
         (192 \<le> (of_char c :: nat) \<and> (of_char c :: nat) \<le> 222 \<and> (of_char c :: nat) \<noteq> 215)
      then of_char c + 32 else of_char c)"
  by (simp add: lower_char_def Let_def)

lemma isspace_lower_char [simp]: "isspace (lower_char c) = isspace c"
  unfolding isspace_def Let_def of_char_lower_char by simp

lemma isdigit_lower_char [simp]: "isdigit (lower_char c) = isdigit c"
  unfolding isdigit_def Let_def of_char_lower_char by simp

lemma isalpha_lower_char [simp]: "isalpha_ascii (lower_char c) = isalpha_ascii c"
  unfolding isalpha_ascii_def Let_def of_char_lower_char by simp

lemma lower_char_eq_low:
  assumes "(of_char d :: nat) < 65 \<or> (of_char d :: nat) = 95"
  shows "lower_char c = d \<longleftrightarrow> c = d"
proof -
  define n where "n = (of_char c :: nat)"
  define m where "m = (of_char d :: nat)"
  have L: "(of_char (lower_char c) :: nat) =
      (if (65 \<le> n \<and> n \<le> 90) \<or> (192 \<le> n \<and> n \<le> 222 \<and> n \<noteq> 215) then n + 32 else n)"
    unfolding n_def by (rule of_char_lower_char)
  have m: "m < 65 \<or> m = 95"
    using assms unfolding m_def .
  have "(of_char (lower_char c) :: nat) = m \<longleftrightarrow> n = m"
    unfolding L using m by (simp split: if_splits) arith
  then have "(of_char (lower_char c) :: nat) = of_char d \<longleftrightarrow> (of_char c :: nat) = of_char d"
    unfolding n_def m_def .
  then show ?thesis
    by (simp only: of_char_eq_iff)
qed

lemma doi_char_lower_char [simp]: "doi_char (lower_char c) = doi_char c"
  by (simp add: doi_char_def lower_char_eq_low)

lemma lower_char_idem [simp]: "lower_char (lower_char c) = lower_char c"
proof -
  define n where "n = (of_char c :: nat)"
  have L: "(of_char (lower_char c) :: nat) =
      (if (65 \<le> n \<and> n \<le> 90) \<or> (192 \<le> n \<and> n \<le> 222 \<and> n \<noteq> 215) then n + 32 else n)"
    unfolding n_def by (rule of_char_lower_char)
  have "(of_char (lower_char (lower_char c)) :: nat) = of_char (lower_char c)"
    unfolding of_char_lower_char [of "lower_char c"] unfolding L by (simp split: if_splits)
  then show ?thesis by (simp only: of_char_eq_iff)
qed

lemma doi_char_not_space: "doi_char c \<Longrightarrow> \<not> isspace c"
  by (auto simp: doi_char_def isspace_def isalpha_ascii_def isdigit_def Let_def)

lemma isdigit_doi_char: "isdigit c \<Longrightarrow> doi_char c"
  by (simp add: doi_char_def)

lemma slash_not_digit: "\<not> isdigit (CHR ''/'')"
  by (simp add: isdigit_def)

lemma slash_doi_char: "doi_char (CHR ''/'')"
  by (simp add: doi_char_def)

subsection \<open>Lists\<close>



lemma takeWhile_all_append:
  "list_all P xs \<Longrightarrow> takeWhile P (xs @ ys) = xs @ takeWhile P ys"
  by (induction xs) auto

lemma dropWhile_all_append:
  "list_all P xs \<Longrightarrow> dropWhile P (xs @ ys) = dropWhile P ys"
  by (induction xs) auto

lemma list_all_takeWhile: "list_all P (takeWhile P xs)"
  by (induction xs) auto

lemma list_all_take_le_takeWhile:
  "list_all P (take k xs) \<Longrightarrow> k \<le> length xs \<Longrightarrow> k \<le> length (takeWhile P xs)"
proof (induction xs arbitrary: k)
  case Nil
  then show ?case by simp
next
  case (Cons x xs)
  then show ?case by (cases k) auto
qed

lemma take_eq_takeWhile:
  "k \<le> length (takeWhile P xs) \<Longrightarrow> list_all P (take k xs)"
proof (induction xs arbitrary: k)
  case Nil
  then show ?case by simp
next
  case (Cons x xs)
  then show ?case by (cases k) (auto split: if_splits)
qed

lemma take_length_takeWhile: "take (length (takeWhile P xs)) xs = takeWhile P xs"
  by (induction xs) auto

lemma drop_length_takeWhile: "drop (length (takeWhile P xs)) xs = dropWhile P xs"
  by (induction xs) auto

lemma drop_in_takeWhile:
  "k < length (takeWhile P xs) \<Longrightarrow> \<exists>y ys. drop k xs = y # ys \<and> P y"
proof (induction xs arbitrary: k)
  case Nil
  then show ?case by simp
next
  case (Cons x xs)
  then show ?case by (cases k) (auto split: if_splits)
qed

subsection \<open>The digits with backtracking\<close>

lemma match_tail_digit: "isdigit y \<Longrightarrow> match_tail (y # ys) = None"
  by (auto simp: match_tail_def isdigit_def)

lemma match_digits_small: "k < 4 \<Longrightarrow> match_digits k s = None"
  by (subst match_digits.simps) simp

lemma match_digits_below:
  "k < length (takeWhile isdigit s) \<Longrightarrow> match_digits k s = None"
proof (induction k)
  case 0
  then show ?case by (simp add: match_digits.simps)
next
  case (Suc k)
  from Suc.prems obtain y ys where d: "drop (Suc k) s = y # ys" "isdigit y"
    using drop_in_takeWhile by blast
  have "match_digits k s = None"
    using Suc by simp
  then show ?case
    using d by (subst match_digits.simps) (simp add: match_tail_digit)
qed

lemma match_digits_above:
  assumes "length (takeWhile isdigit s) < k"
  shows "match_digits k s = match_digits (k - 1) s"
proof (cases "k < 4")
  case True
  then have "k - 1 < 4" by arith
  with True show ?thesis by (simp only: match_digits_small)
next
  case False
  have "\<not> (k \<le> length s \<and> list_all isdigit (take k s))"
    using assms list_all_take_le_takeWhile [of isdigit k s] by auto
  with False show ?thesis
    by (subst match_digits.simps) auto
qed

lemma match_digits_down:
  "length (takeWhile isdigit s) \<le> k \<Longrightarrow>
   match_digits k s = match_digits (length (takeWhile isdigit s)) s"
proof (induction k)
  case 0
  then show ?case by simp
next
  case (Suc k)
  show ?case
  proof (cases "length (takeWhile isdigit s) = Suc k")
    case True
    then show ?thesis by simp
  next
    case False
    with Suc.prems have "length (takeWhile isdigit s) < Suc k" by simp
    then have "match_digits (Suc k) s = match_digits k s"
      using match_digits_above [of s "Suc k"] by simp
    with Suc False show ?thesis by simp
  qed
qed

lemma match_digits_exact:
  "match_digits (length (takeWhile isdigit s)) s =
     (if length (takeWhile isdigit s) < 4 then None
      else map_option ((@) (takeWhile isdigit s)) (match_tail (dropWhile isdigit s)))"
proof (cases "length (takeWhile isdigit s) < 4")
  case True
  then show ?thesis by (subst match_digits.simps) simp
next
  case False
  have below: "match_digits (length (takeWhile isdigit s) - 1) s = None"
    using False by (intro match_digits_below) simp
  have le: "length (takeWhile isdigit s) \<le> length s"
    by (rule length_takeWhile_le)
  show ?thesis
    using False below le
    by (subst match_digits.simps)
       (simp add: take_length_takeWhile drop_length_takeWhile list_all_takeWhile
             split: option.splits)
qed

lemma match_digits_9:
  "match_digits 9 s =
     (if 4 \<le> length (takeWhile isdigit s) \<and> length (takeWhile isdigit s) \<le> 9
      then map_option ((@) (takeWhile isdigit s)) (match_tail (dropWhile isdigit s))
      else None)"
proof (cases "length (takeWhile isdigit s) \<le> 9")
  case True
  then show ?thesis
    using match_digits_down [of s 9] match_digits_exact [of s] by auto
next
  case False
  then show ?thesis
    using match_digits_below [of 9 s] by simp
qed

subsection \<open>The pattern at one position\<close>

lemma takeWhile_dropWhile_Nil: "takeWhile P (dropWhile P xs) = []"
  by (induction xs) auto

lemma match_at_unfold:
  "match_at s =
     (if take 3 s = ''10.'' \<and> 4 \<le> length (takeWhile isdigit (drop 3 s)) \<and>
         length (takeWhile isdigit (drop 3 s)) \<le> 9
      then (case dropWhile isdigit (drop 3 s) of
              [] \<Rightarrow> None
            | c # u \<Rightarrow> if c = CHR ''/'' \<and> takeWhile doi_char u \<noteq> []
                      then Some (''10.'' @ takeWhile isdigit (drop 3 s) @ c # takeWhile doi_char u)
                      else None)
      else None)"
proof (cases "dropWhile isdigit (drop 3 s)")
  case Nil
  show ?thesis
    unfolding match_at_def match_digits_9 match_tail_def Nil by simp
next
  case (Cons c u)
  show ?thesis
    unfolding match_at_def match_digits_9 match_tail_def Cons by simp
qed

lemma doi_form_intro:
  assumes "list_all isdigit ds" "4 \<le> length ds" "length ds \<le> 9" "r \<noteq> []" "list_all doi_char r"
  shows "doi_form (''10.'' @ ds @ CHR ''/'' # r)"
proof -
  have "takeWhile isdigit (ds @ CHR ''/'' # r) = ds"
    using assms(1) by (simp add: takeWhile_all_append slash_not_digit)
  moreover have "dropWhile isdigit (ds @ CHR ''/'' # r) = CHR ''/'' # r"
    using assms(1) by (simp add: dropWhile_all_append slash_not_digit)
  ultimately show ?thesis
    using assms by (simp add: doi_form_def)
qed

lemma doi_form_elim:
  assumes "doi_form m"
  obtains ds r where "m = ''10.'' @ ds @ CHR ''/'' # r" "list_all isdigit ds"
    "4 \<le> length ds" "length ds \<le> 9" "r \<noteq> []" "list_all doi_char r"
proof -
  from assms have p: "take 3 m = ''10.''"
    by (simp add: doi_form_def)
  from assms have n: "4 \<le> length (takeWhile isdigit (drop 3 m))"
      "length (takeWhile isdigit (drop 3 m)) \<le> 9"
    by (simp_all add: doi_form_def Let_def)
  from assms obtain r where r: "dropWhile isdigit (drop 3 m) = CHR ''/'' # r" "r \<noteq> []"
      "list_all doi_char r"
    by (auto simp: doi_form_def Let_def split: list.splits)
  have "m = take 3 m @ takeWhile isdigit (drop 3 m) @ dropWhile isdigit (drop 3 m)"
    by simp
  then have "m = ''10.'' @ takeWhile isdigit (drop 3 m) @ CHR ''/'' # r"
    using p r(1) by simp
  then show thesis
    using that n r list_all_takeWhile [of isdigit "drop 3 m"] by blast
qed

lemma doi_form_not_Nil: "doi_form m \<Longrightarrow> m \<noteq> []"
  by (auto simp: doi_form_def)

lemma doi_form_hd: "doi_form m \<Longrightarrow> hd m = CHR ''1''"
  by (erule doi_form_elim) simp

lemma doi_form_last: "doi_form m \<Longrightarrow> doi_char (last m)"
  by (erule doi_form_elim) (simp add: list_all_iff)

lemma match_at_doi_form:
  assumes "doi_form m"
  shows "match_at (m @ rest) = Some (m @ takeWhile doi_char rest)"
proof -
  from assms obtain ds r where m: "m = ''10.'' @ ds @ CHR ''/'' # r" and ds: "list_all isdigit ds"
      "4 \<le> length ds" "length ds \<le> 9" and r: "r \<noteq> []" "list_all doi_char r"
    by (rule doi_form_elim)
  have d: "drop 3 (m @ rest) = ds @ CHR ''/'' # (r @ rest)"
    by (simp add: m)
  have tw: "takeWhile isdigit (ds @ CHR ''/'' # (r @ rest)) = ds"
    using ds(1) by (simp add: takeWhile_all_append slash_not_digit)
  have dw: "dropWhile isdigit (ds @ CHR ''/'' # (r @ rest)) = CHR ''/'' # (r @ rest)"
    using ds(1) by (simp add: dropWhile_all_append slash_not_digit)
  have run: "takeWhile doi_char (r @ rest) = r @ takeWhile doi_char rest"
    using r(2) by (rule takeWhile_all_append)
  have p: "take 3 (m @ rest) = ''10.''"
    by (simp add: m)
  show ?thesis
    unfolding match_at_unfold [of "m @ rest"] p d tw dw
    using ds r run by (simp add: m)
qed

lemma match_at_SomeD:
  assumes "match_at s = Some m"
  shows "doi_form m \<and> (\<exists>rest. s = m @ rest \<and> takeWhile doi_char rest = [])"
proof -
  let ?t = "drop 3 s"
  from assms have p: "take 3 s = ''10.''" and n: "4 \<le> length (takeWhile isdigit ?t)"
      "length (takeWhile isdigit ?t) \<le> 9"
    unfolding match_at_unfold [of s] by (simp_all split: if_splits)
  from assms p n obtain u where u: "dropWhile isdigit ?t = CHR ''/'' # u"
      "takeWhile doi_char u \<noteq> []"
      "m = ''10.'' @ takeWhile isdigit ?t @ CHR ''/'' # takeWhile doi_char u"
    unfolding match_at_unfold [of s] by (auto split: list.splits if_splits)
  have form: "doi_form m"
    unfolding u(3) using n u(2)
    by (intro doi_form_intro) (simp_all add: list_all_takeWhile)
  have "s = take 3 s @ takeWhile isdigit ?t @ dropWhile isdigit ?t"
    by simp
  also have "\<dots> = ''10.'' @ takeWhile isdigit ?t @ CHR ''/'' # (takeWhile doi_char u @ dropWhile doi_char u)"
    unfolding p u(1) by simp
  also have "\<dots> = m @ dropWhile doi_char u"
    unfolding u(3) by simp
  finally have "s = m @ dropWhile doi_char u" .
  with form show ?thesis
    using takeWhile_dropWhile_Nil [of doi_char u] by blast
qed

lemma match_at_fixed: "match_at s = Some m \<Longrightarrow> match_at m = Some m"
  using match_at_SomeD [of s m] match_at_doi_form [of m "[]"] by simp

lemma match_at_iff_prefix: "match_at s \<noteq> None \<longleftrightarrow> (\<exists>n. doi_form (take n s))"
proof
  assume "match_at s \<noteq> None"
  then obtain m where "match_at s = Some m" by auto
  then obtain rest where "doi_form m" "s = m @ rest"
    using match_at_SomeD by blast
  then have "doi_form (take (length m) s)" by simp
  then show "\<exists>n. doi_form (take n s)" ..
next
  assume "\<exists>n. doi_form (take n s)"
  then obtain n where "doi_form (take n s)" ..
  then have "match_at (take n s @ drop n s) \<noteq> None"
    by (simp only: match_at_doi_form) simp
  then show "match_at s \<noteq> None" by simp
qed

lemma doi_at_iff: "doi_at s i \<longleftrightarrow> match_at (drop i s) \<noteq> None"
proof
  assume "doi_at s i"
  then show "match_at (drop i s) \<noteq> None"
    unfolding doi_at_def match_at_iff_prefix list_ex_iff by blast
next
  assume "match_at (drop i s) \<noteq> None"
  then obtain n where n: "doi_form (take n (drop i s))"
    unfolding match_at_iff_prefix ..
  have "take (min n (length s)) (drop i s) = take n (drop i s)"
    by (simp add: min_def)
  with n have "doi_form (take (min n (length s)) (drop i s))" by simp
  moreover have "min n (length s) \<in> set [0..<Suc (length s)]" by (auto simp: min_def)
  ultimately show "doi_at s i"
    unfolding doi_at_def list_ex_iff by blast
qed

subsection \<open>Lower case\<close>

lemma isdigit_comp_lower [simp]: "isdigit \<circ> lower_char = isdigit"
  by (simp add: fun_eq_iff)

lemma doi_char_comp_lower [simp]: "doi_char \<circ> lower_char = doi_char"
  by (simp add: fun_eq_iff)

lemma isspace_comp_lower [simp]: "isspace \<circ> lower_char = isspace"
  by (simp add: fun_eq_iff)

lemma lower_append: "lower (xs @ ys) = lower xs @ lower ys"
  by (simp add: lower_def)

lemma lower_take: "lower (take n xs) = take n (lower xs)"
  by (simp add: lower_def take_map)

lemma lower_drop: "lower (drop n xs) = drop n (lower xs)"
  by (simp add: lower_def drop_map)

lemma length_lower [simp]: "length (lower xs) = length xs"
  by (simp add: lower_def)

lemma lower_Nil [simp]: "lower [] = []"
  by (simp add: lower_def)

lemma lower_idem [simp]: "lower (lower xs) = lower xs"
  by (simp add: lower_def)


lemma lower_eq_prefix: "lower x = ''10.'' \<longleftrightarrow> x = ''10.''"
  by (auto simp: lower_def map_eq_Cons_conv lower_char_eq_low)

lemma doi_form_lower [simp]: "doi_form (lower m) = doi_form m"
proof -
  have p: "take 3 (lower m) = ''10.'' \<longleftrightarrow> take 3 m = ''10.''"
    unfolding lower_take [symmetric] by (rule lower_eq_prefix)
  have tw: "takeWhile isdigit (drop 3 (lower m)) = lower (takeWhile isdigit (drop 3 m))"
    by (simp add: lower_def drop_map takeWhile_map)
  have dw: "dropWhile isdigit (drop 3 (lower m)) = lower (dropWhile isdigit (drop 3 m))"
    by (simp add: lower_def drop_map dropWhile_map)
  show ?thesis
  proof (cases "dropWhile isdigit (drop 3 m)")
    case Nil
    show ?thesis
      unfolding doi_form_def Let_def p tw dw Nil by (simp add: lower_def)
  next
    case (Cons c r)
    show ?thesis
      unfolding doi_form_def Let_def p tw dw Cons
      by (simp add: lower_def lower_char_eq_low list.pred_map)
  qed
qed

lemma doi_at_lower [simp]: "doi_at (lower s) i = doi_at s i"
  unfolding doi_at_def lower_drop [symmetric] lower_take [symmetric] by simp

subsection \<open>The search\<close>

lemma match_at_Nil [simp]: "match_at [] = None"
  by (simp add: match_at_def)

lemma re_search_match: "match_at s = Some m \<Longrightarrow> re_search s = Some m"
  by (cases s) simp_all


lemma re_search_None_iff: "re_search s = None \<longleftrightarrow> (\<forall>i. match_at (drop i s) = None)"
proof (induction s)
  case Nil
  show ?case by simp
next
  case (Cons c cs)
  have "(\<forall>i. match_at (drop i (c # cs)) = None) \<longleftrightarrow>
      match_at (c # cs) = None \<and> (\<forall>i. match_at (drop i cs) = None)"
  proof
    assume a: "\<forall>i. match_at (drop i (c # cs)) = None"
    have "match_at (drop 0 (c # cs)) = None"
      using a by blast
    moreover have "match_at (drop i cs) = None" for i
      using a [rule_format, of "Suc i"] by simp
    ultimately show "match_at (c # cs) = None \<and> (\<forall>i. match_at (drop i cs) = None)"
      by simp
  next
    assume a: "match_at (c # cs) = None \<and> (\<forall>i. match_at (drop i cs) = None)"
    show "\<forall>i. match_at (drop i (c # cs)) = None"
    proof
      fix i show "match_at (drop i (c # cs)) = None"
        using a by (cases i) simp_all
    qed
  qed
  with Cons show ?case
    by (simp split: option.splits)
qed

lemma re_search_SomeD: "re_search s = Some m \<Longrightarrow> \<exists>i. match_at (drop i s) = Some m"
proof (induction s)
  case Nil
  then show ?case by simp
next
  case (Cons c cs)
  show ?case
  proof (cases "match_at (c # cs)")
    case None
    with Cons obtain i where "match_at (drop i cs) = Some m"
      by auto
    then have "match_at (drop (Suc i) (c # cs)) = Some m"
      by simp
    then show ?thesis ..
  next
    case (Some a)
    with Cons.prems have "match_at (drop 0 (c # cs)) = Some m"
      by simp
    then show ?thesis ..
  qed
qed

subsection \<open>Stripping\<close>

lemma dropWhile_hd_stop: "xs \<noteq> [] \<Longrightarrow> \<not> P (hd xs) \<Longrightarrow> dropWhile P xs = xs"
  by (cases xs) simp_all

lemma strip_decomp:
  "s = takeWhile isspace s @ strip s @ rev (takeWhile isspace (rev (dropWhile isspace s)))"
proof -
  let ?u = "dropWhile isspace s"
  have "?u = rev (takeWhile isspace (rev ?u) @ dropWhile isspace (rev ?u))"
    by (simp only: takeWhile_dropWhile_id rev_rev_ident)
  then have "?u = strip s @ rev (takeWhile isspace (rev ?u))"
    by (simp only: rev_append strip_def)
  moreover have "s = takeWhile isspace s @ ?u"
    by simp
  ultimately show ?thesis
    by metis
qed

lemma strip_fix:
  assumes "u = [] \<or> (\<not> isspace (hd u) \<and> \<not> isspace (last u))"
  shows "strip u = u"
proof (cases u)
  case Nil
  then show ?thesis by (simp add: strip_def)
next
  case (Cons x xs)
  with assms have h: "\<not> isspace x" and l: "\<not> isspace (last u)"
    by auto
  have "dropWhile isspace u = u"
    using h Cons by simp
  moreover have "u \<noteq> []"
    using Cons by simp
  then have "dropWhile isspace (rev u) = rev u"
    using l by (intro dropWhile_hd_stop) (simp_all add: hd_rev)
  ultimately show ?thesis
    by (simp add: strip_def)
qed

lemma strip_ends: "strip s = [] \<or> (\<not> isspace (hd (strip s)) \<and> \<not> isspace (last (strip s)))"
proof (cases "strip s = []")
  case True
  then show ?thesis ..
next
  case False
  let ?u = "dropWhile isspace s"
  let ?w = "dropWhile isspace (rev ?u)"
  have s: "strip s = rev ?w"
    by (simp add: strip_def)
  with False have w: "?w \<noteq> []"
    by simp
  then have "\<not> isspace (hd ?w)"
    by (rule hd_dropWhile)
  then have l: "\<not> isspace (last (strip s))"
    using w by (simp add: s last_rev)
  have u: "?u \<noteq> []"
  proof
    assume "?u = []"
    then have "?w = []" by (simp only: rev.simps dropWhile.simps)
    with w show False ..
  qed
  have "rev ?u = takeWhile isspace (rev ?u) @ ?w"
    by simp
  then have "last (rev ?u) = last ?w"
    using w by (metis last_appendR)
  then have "hd ?u = last ?w"
    using u by (simp add: last_rev)
  moreover have "\<not> isspace (hd ?u)"
    using u by (rule hd_dropWhile)
  ultimately have "\<not> isspace (hd (strip s))"
    using w by (simp add: s hd_rev)
  with l show ?thesis
    by simp
qed

lemma strip_idem [simp]: "strip (strip s) = strip s"
  using strip_ends [of s] by (rule strip_fix)

lemma strip_lower: "strip (lower s) = lower (strip s)"
  by (simp add: strip_def lower_def dropWhile_map rev_map)


subsection \<open>Occurrences and the result of \<open>normalize_doi\<close>\<close>

lemma doi_at_beyond: "doi_at s i \<Longrightarrow> i < length s"
proof (rule ccontr)
  assume a: "doi_at s i" and "\<not> i < length s"
  then have "drop i s = []" by simp
  with a show False by (simp add: doi_at_iff)
qed

lemma contains_doi_iff: "contains_doi s \<longleftrightarrow> (\<exists>i. doi_at s i)"
  unfolding contains_doi_def list_ex_iff using doi_at_beyond by auto

lemma doi_at_shift:
  assumes "doi_at u j"
  shows "doi_at (a @ u @ b) (length a + j)"
proof -
  from assms obtain m where "match_at (drop j u) = Some m"
    by (auto simp: doi_at_iff)
  then obtain rest where m: "doi_form m" "drop j u = m @ rest"
    using match_at_SomeD by blast
  from assms have "j < length u"
    by (rule doi_at_beyond)
  then have "drop (length a + j) (a @ u @ b) = m @ (rest @ b)"
    using m(2) by simp
  then show ?thesis
    using m(1) by (simp only: doi_at_iff match_at_doi_form) simp
qed

lemma doi_at_strip:
  assumes "doi_at (strip s) j"
  shows "doi_at s (length (takeWhile isspace s) + j)"
proof -
  have "doi_at (takeWhile isspace s @ strip s @ rev (takeWhile isspace (rev (dropWhile isspace s))))
      (length (takeWhile isspace s) + j)"
    using assms by (rule doi_at_shift)
  then show ?thesis
    by (simp only: strip_decomp [symmetric])
qed



lemma normalize_doi_no_match:
  assumes "s \<noteq> []" "\<not> contains_doi s"
  shows "normalize_doi (Some s) = (lower (strip s), [Warn_doi_pattern (lower (strip s))])"
proof -
  have "match_at (drop i (lower (strip s))) = None" for i
  proof (rule ccontr)
    assume "match_at (drop i (lower (strip s))) \<noteq> None"
    then have "doi_at (lower (strip s)) i"
      using doi_at_iff [of "lower (strip s)" i] by blast
    then have "doi_at (strip s) i"
      by simp
    then have "doi_at s (length (takeWhile isspace s) + i)"
      by (rule doi_at_strip)
    with assms(2) show False
      by (auto simp: contains_doi_iff)
  qed
  then have "re_search (lower (strip s)) = None"
    by (simp add: re_search_None_iff)
  with assms(1) show ?thesis
    by (simp add: Let_def)
qed


lemma normalize_doi_idem:
  "fst (normalize_doi (Some (fst (normalize_doi x)))) = fst (normalize_doi x)"
proof (cases x)
  case None
  then show ?thesis by simp
next
  case (Some s)
  note x = Some
  show ?thesis
  proof (cases "s = []")
    case True
    with x show ?thesis by simp
  next
    case False
    let ?t = "lower (strip s)"
    show ?thesis
    proof (cases "re_search ?t")
      case None
      have t: "lower (strip ?t) = ?t"
        by (simp add: strip_lower)
      have "fst (normalize_doi (Some ?t)) = ?t"
        using None by (simp add: t Let_def)
      with x False None show ?thesis
        by (simp add: Let_def)
    next
      case (Some m)
      then obtain i where i: "match_at (drop i ?t) = Some m"
        using re_search_SomeD by blast
      then obtain rest where m: "doi_form m" "drop i ?t = m @ rest"
        using match_at_SomeD by blast
      have "lower (drop i ?t) = drop i ?t"
        by (simp add: lower_drop)
      then have "lower m @ lower rest = m @ rest"
        by (simp add: m(2) lower_append)
      then have low: "lower m = m"
        by simp
      have ends: "m \<noteq> []" "\<not> isspace (hd m)" "\<not> isspace (last m)"
        using m(1) doi_form_not_Nil doi_form_last doi_char_not_space
        by (auto simp: doi_form_hd isspace_def)
      then have st: "strip m = m"
        by (intro strip_fix) simp
      have "re_search m = Some m"
        using i by (intro re_search_match match_at_fixed)
      then have "fst (normalize_doi (Some m)) = m"
        using ends(1) by (simp add: st low Let_def)
      with x False Some show ?thesis
        by (simp add: Let_def)
    qed
  qed
qed

section \<open>Claims about \<open>normalize_doi\<close>\<close>




text \<open>
  C5. \<open>normalize_doi\<close> is idempotent: normalizing its result gives the result again, for
  every string and for \<open>None\<close>.
\<close>

theorem C5_normalize_doi_idempotent:
  "fst (normalize_doi (Some (fst (normalize_doi x)))) = fst (normalize_doi x)"
  by (rule normalize_doi_idem)

theorem C5_normalize_doi_idempotent_witness:
  "fst (normalize_doi (Some (fst (normalize_doi (Some '' HTTPS://doi.org/10.1234/Ab ''))))) =
     ''10.1234/ab''"
proof -
  have "fst (normalize_doi (Some '' HTTPS://doi.org/10.1234/Ab '')) = ''10.1234/ab''"
    by code_simp
  then show ?thesis
    using C5_normalize_doi_idempotent [of "Some '' HTTPS://doi.org/10.1234/Ab ''"] by simp
qed

text \<open>
  C7. For a non-empty string in which no substring has the identifier shape,
  \<open>normalize_doi\<close> returns the trimmed, lowercased string and logs the warning that the
  string did not match; for the empty string and for \<open>None\<close> it returns the empty string
  (and logs nothing).
\<close>

theorem C7_normalize_doi_fallback:
  "(s \<noteq> [] \<and> \<not> contains_doi s \<longrightarrow>
      normalize_doi (Some s) = (lower (strip s), [Warn_doi_pattern (lower (strip s))])) \<and>
   normalize_doi (Some []) = ([], []) \<and>
   normalize_doi None = ([], [])"
  using normalize_doi_no_match [of s] by simp

theorem C7_normalize_doi_fallback_witness:
  "'' Not A DOI '' \<noteq> [] \<and> \<not> contains_doi '' Not A DOI '' \<and>
   normalize_doi (Some '' Not A DOI '') = (''not a doi'', [Warn_doi_pattern ''not a doi''])"
proof -
  have h: "\<not> contains_doi '' Not A DOI ''"
    by code_simp
  have v: "lower (strip '' Not A DOI '') = ''not a doi''"
    by code_simp
  show ?thesis
    using C7_normalize_doi_fallback [of "'' Not A DOI ''"] h unfolding v by simp
qed

section \<open>Properties of \<open>remove_duplicates_by_doi\<close>\<close>

subsection \<open>The deduplicator\<close>


lemma collect_dois_y_eq:
  "collect_dois_y acc y = acc \<union> {d \<in> normalized_identifier ` set y. d \<noteq> []}"
  by (induction y arbitrary: acc) (auto simp: normalized_identifier_def Let_def)

lemma not_in_y_iff:
  "not_in_y y e \<longleftrightarrow>
     normalized_identifier e = [] \<or> normalized_identifier e \<notin> collect_dois_y {} y"
  by (auto simp: not_in_y_def collect_dois_y_eq)

lemma filter_step_seen:
  "dict_get e ''ID'' \<in> seen \<Longrightarrow>
   filter_step dois seen e = (seen, [], 0, [Warn_duplicate_id_x (dict_get e ''ID'')])"
  by (simp add: filter_step_def)

lemma filter_step_keep:
  "dict_get e ''ID'' \<notin> seen \<Longrightarrow>
   normalized_identifier e = [] \<or> normalized_identifier e \<notin> dois \<Longrightarrow>
   filter_step dois seen e = (insert (dict_get e ''ID'') seen, [e], 0, [])"
  by (auto simp: filter_step_def normalized_identifier_def Let_def)

lemma filter_step_drop:
  "dict_get e ''ID'' \<notin> seen \<Longrightarrow>
   \<not> (normalized_identifier e = [] \<or> normalized_identifier e \<notin> dois) \<Longrightarrow>
   filter_step dois seen e =
     (insert (dict_get e ''ID'') seen, [], 1,
      [Info_removing (dict_get e ''ID'') (normalized_identifier e)])"
  by (auto simp: filter_step_def normalized_identifier_def Let_def)

lemma filter_loop_fst_Cons:
  "fst (filter_loop dois seen (e # es)) =
     (if dict_get e ''ID'' \<in> seen then fst (filter_loop dois seen es)
      else if normalized_identifier e = [] \<or> normalized_identifier e \<notin> dois
      then e # fst (filter_loop dois (insert (dict_get e ''ID'') seen) es)
      else fst (filter_loop dois (insert (dict_get e ''ID'') seen) es))"
  by (auto simp: filter_step_seen filter_step_keep filter_step_drop split_beta)

lemma filter_loop_log_Cons:
  "snd (snd (filter_loop dois seen (e # es))) =
     (if dict_get e ''ID'' \<in> seen
      then Warn_duplicate_id_x (dict_get e ''ID'') # snd (snd (filter_loop dois seen es))
      else if normalized_identifier e = [] \<or> normalized_identifier e \<notin> dois
      then snd (snd (filter_loop dois (insert (dict_get e ''ID'') seen) es))
      else Info_removing (dict_get e ''ID'') (normalized_identifier e) #
           snd (snd (filter_loop dois (insert (dict_get e ''ID'') seen) es)))"
  by (auto simp: filter_step_seen filter_step_keep filter_step_drop split_beta)

lemma remove_duplicates_fst:
  "fst (remove_duplicates_by_doi x y) = fst (filter_loop (collect_dois_y {} y) {} x)"
  by (simp add: remove_duplicates_by_doi_def split_beta Let_def)

lemma remove_duplicates_snd:
  "snd (remove_duplicates_by_doi x y) =
     Info_dois_y (card (collect_dois_y {} y)) #
     snd (snd (filter_loop (collect_dois_y {} y) {} x)) @
     [Info_removed (fst (snd (filter_loop (collect_dois_y {} y) {} x)))]"
  by (simp add: remove_duplicates_by_doi_def split_beta Let_def)

lemma filter_loop_distinct:
  assumes "distinct (map (\<lambda>e. dict_get e ''ID'') x)" "\<forall>e\<in>set x. dict_get e ''ID'' \<notin> seen"
  shows "fst (filter_loop dois seen x) =
     filter (\<lambda>e. normalized_identifier e = [] \<or> normalized_identifier e \<notin> dois) x"
  using assms
proof (induction x arbitrary: seen)
  case Nil
  show ?case by simp
next
  case (Cons e es)
  have "\<forall>r\<in>set es. dict_get r ''ID'' \<notin> insert (dict_get e ''ID'') seen"
  proof
    fix r assume r: "r \<in> set es"
    have "dict_get e ''ID'' \<notin> (\<lambda>e. dict_get e ''ID'') ` set es"
      using Cons.prems(1) by simp
    then have "dict_get r ''ID'' \<noteq> dict_get e ''ID''"
      using r by (metis imageI)
    moreover have "dict_get r ''ID'' \<notin> seen"
      using Cons.prems(2) r by simp
    ultimately show "dict_get r ''ID'' \<notin> insert (dict_get e ''ID'') seen"
      by simp
  qed
  then have "fst (filter_loop dois (insert (dict_get e ''ID'') seen) es) =
      filter (\<lambda>e. normalized_identifier e = [] \<or> normalized_identifier e \<notin> dois) es"
    using Cons.IH Cons.prems(1) by simp
  then show ?case
    using Cons.prems(2) by (simp add: filter_loop_fst_Cons del: filter_loop.simps)
qed


lemma filter_loop_idless_seen:
  "None \<in> seen \<Longrightarrow>
   filter (\<lambda>e. dict_get e ''ID'' = None) (fst (filter_loop dois seen x)) = [] \<and>
   length (filter (\<lambda>l. l = Warn_duplicate_id_x None) (snd (snd (filter_loop dois seen x)))) =
     length (filter (\<lambda>e. dict_get e ''ID'' = None) x)"
proof (induction x arbitrary: seen)
  case Nil
  show ?case by simp
next
  case (Cons e es)
  then show ?case
    unfolding filter_loop_fst_Cons filter_loop_log_Cons by auto
qed

lemma filter_loop_idless_fresh:
  "None \<notin> seen \<Longrightarrow>
   filter (\<lambda>e. dict_get e ''ID'' = None) (fst (filter_loop dois seen x)) =
     filter (\<lambda>e. normalized_identifier e = [] \<or> normalized_identifier e \<notin> dois)
       (take 1 (filter (\<lambda>e. dict_get e ''ID'' = None) x)) \<and>
   length (filter (\<lambda>l. l = Warn_duplicate_id_x None) (snd (snd (filter_loop dois seen x)))) =
     length (filter (\<lambda>e. dict_get e ''ID'' = None) x) - 1"
proof (induction x arbitrary: seen)
  case Nil
  show ?case by simp
next
  case (Cons e es)
  show ?case
  proof (cases "dict_get e ''ID''")
    case None
    have "None \<in> insert (dict_get e ''ID'') seen"
      using None by simp
    then show ?thesis
      using Cons.prems None filter_loop_idless_seen [of "insert (dict_get e ''ID'') seen" dois es]
      unfolding filter_loop_fst_Cons filter_loop_log_Cons by auto
  next
    case (Some i)
    then have "None \<notin> insert (dict_get e ''ID'') seen"
      using Cons.prems by simp
    then show ?thesis
      using Cons.IH [of "insert (dict_get e ''ID'') seen"] Cons.IH [of seen] Cons.prems Some
      unfolding filter_loop_fst_Cons filter_loop_log_Cons by auto
  qed
qed

section \<open>Claims about \<open>remove_duplicates_by_doi\<close>\<close>

text \<open>
  C1 (as amended). \<open>remove_duplicates_by_doi\<close> compares the stored \<open>doi\<close> fields as they
  are, trimmed; it does not normalize them. The record of \<open>X\<close> is removed once the
  identifier of \<open>Y\<close> has been normalized: by \<open>normalize_doi\<close> applied to the field, or by
  passing both record sets, with a type tag on each record, through
  \<open>standardize_bibtex_file\<close>.
\<close>

theorem C1_deduplicate_after_normalizing:
  "fst (remove_duplicates_by_doi
      [[(''ID'', ''a''), (''doi'', ''10.1234/example.doi'')]]
      [[(''ID'', ''b''),
        (''doi'', fst (normalize_doi (Some ''https://doi.org/10.1234/EXAMPLE.DOI'')))]]) = [] \<and>
   fst (remove_duplicates_by_doi
      (fst (standardize_bibtex_file
        [[(''ID'', ''a''), (''ENTRYTYPE'', ''article''), (''doi'', ''10.1234/example.doi'')]]))
      (fst (standardize_bibtex_file
        [[(''ID'', ''b''), (''ENTRYTYPE'', ''article''),
          (''doi'', ''https://doi.org/10.1234/EXAMPLE.DOI'')]]))) = []"
  by code_simp

theorem C1_deduplicate_after_normalizing_witness:
  "length (fst (remove_duplicates_by_doi
      [[(''ID'', ''a''), (''doi'', ''10.1234/example.doi'')]]
      [[(''ID'', ''b''),
        (''doi'', fst (normalize_doi (Some ''https://doi.org/10.1234/EXAMPLE.DOI'')))]])) = 0"
  using C1_deduplicate_after_normalizing by simp

text \<open>
  C1 as stated fails: on the two record sets as given, the record of \<open>X\<close> is kept, since
  its identifier is not equal to the resolver URL stored in \<open>Y\<close>.
\<close>

theorem C1_counterexample:
  "fst (remove_duplicates_by_doi
      [[(''ID'', ''a''), (''doi'', ''10.1234/example.doi'')]]
      [[(''ID'', ''b''), (''doi'', ''https://doi.org/10.1234/EXAMPLE.DOI'')]]) =
     [[(''ID'', ''a''), (''doi'', ''10.1234/example.doi'')]]"
  by code_simp

text \<open>
  C4 (as amended). When the records of \<open>x\<close> carry pairwise distinct identifiers (at most
  one of them none), \<open>remove_duplicates_by_doi\<close> returns exactly the records of \<open>x\<close>, in
  their order, whose normalized identifier is empty or is not among the non-empty
  normalized identifiers of \<open>y\<close>; in particular \<open>x\<close> itself when every record of \<open>x\<close> has
  an empty normalized identifier.
\<close>

theorem C4_deduplicate_filter:
  assumes "distinct (map (\<lambda>e. dict_get e ''ID'') x)"
  shows "fst (remove_duplicates_by_doi x y) = filter (not_in_y y) x \<and>
         (list_all (\<lambda>e. normalized_identifier e = []) x \<longrightarrow>
            fst (remove_duplicates_by_doi x y) = x)"
proof -
  have "fst (remove_duplicates_by_doi x y) =
      filter (\<lambda>e. normalized_identifier e = [] \<or>
                normalized_identifier e \<notin> collect_dois_y {} y) x"
    unfolding remove_duplicates_fst using assms by (intro filter_loop_distinct) simp_all
  then have 1: "fst (remove_duplicates_by_doi x y) = filter (not_in_y y) x"
    by (simp add: not_in_y_iff [abs_def])
  have "list_all (\<lambda>e. normalized_identifier e = []) x \<Longrightarrow> filter (not_in_y y) x = x"
    by (simp add: list_all_iff not_in_y_def)
  with 1 show ?thesis
    by simp
qed

theorem C4_deduplicate_filter_witness:
  "distinct (map (\<lambda>e. dict_get e ''ID'')
      [[(''ID'', ''a''), (''doi'', ''10.1/x'')], [(''ID'', ''b''), (''doi'', ''10.2/y'')],
       [(''ID'', ''c'')]]) \<and>
   fst (remove_duplicates_by_doi
      [[(''ID'', ''a''), (''doi'', ''10.1/x'')], [(''ID'', ''b''), (''doi'', ''10.2/y'')],
       [(''ID'', ''c'')]]
      [[(''ID'', ''z''), (''doi'', ''10.1/x'')]]) =
     [[(''ID'', ''b''), (''doi'', ''10.2/y'')], [(''ID'', ''c'')]]"
proof -
  let ?x = "[[(''ID'', ''a''), (''doi'', ''10.1/x'')], [(''ID'', ''b''), (''doi'', ''10.2/y'')],
       [(''ID'', ''c'')]]"
  let ?y = "[[(''ID'', ''z''), (''doi'', ''10.1/x'')]]"
  have h: "distinct (map (\<lambda>e. dict_get e ''ID'') ?x)"
    by code_simp
  have v: "filter (not_in_y ?y) ?x = [[(''ID'', ''b''), (''doi'', ''10.2/y'')], [(''ID'', ''c'')]]"
    by code_simp
  show ?thesis
    using C4_deduplicate_filter [OF h, of ?y] h unfolding v by blast
qed

text \<open>
  C4 as stated fails: both records below have an empty normalized identifier, and the
  second is dropped because it repeats the identifier of the first.
\<close>

theorem C4_counterexample:
  "filter (not_in_y [])
      [[(''ID'', ''a''), (''title'', ''one'')], [(''ID'', ''a''), (''title'', ''two'')]] =
     [[(''ID'', ''a''), (''title'', ''one'')], [(''ID'', ''a''), (''title'', ''two'')]] \<and>
   fst (remove_duplicates_by_doi
      [[(''ID'', ''a''), (''title'', ''one'')], [(''ID'', ''a''), (''title'', ''two'')]] []) =
     [[(''ID'', ''a''), (''title'', ''one'')]]"
  by code_simp

text \<open>
  C9. Of the records of \<open>x\<close> that have no \<open>ID\<close> field, only the first is considered for
  keeping: the records without \<open>ID\<close> in the result are that first record if it passes the
  identifier test, and nothing else. Each later record without \<open>ID\<close> is dropped by the
  duplicate guard, which logs its warning for the identifier \<open>None\<close>.
\<close>

theorem C9_identifierless_records:
  "filter (\<lambda>e. dict_get e ''ID'' = None) (fst (remove_duplicates_by_doi x y)) =
     filter (not_in_y y) (take 1 (filter (\<lambda>e. dict_get e ''ID'' = None) x)) \<and>
   length (filter (\<lambda>l. l = Warn_duplicate_id_x None) (snd (remove_duplicates_by_doi x y))) =
     length (filter (\<lambda>e. dict_get e ''ID'' = None) x) - 1"
  using filter_loop_idless_fresh [of "{}" "collect_dois_y {} y" x]
  by (simp add: remove_duplicates_fst remove_duplicates_snd not_in_y_iff [abs_def])

theorem C9_identifierless_records_witness:
  "fst (remove_duplicates_by_doi
      [[(''title'', ''one'')], [(''ID'', ''a'')], [(''title'', ''two'')], [(''title'', ''three'')]]
      []) = [[(''title'', ''one'')], [(''ID'', ''a'')]] \<and>
   length (filter (\<lambda>l. l = Warn_duplicate_id_x None) (snd (remove_duplicates_by_doi
      [[(''title'', ''one'')], [(''ID'', ''a'')], [(''title'', ''two'')], [(''title'', ''three'')]]
      []))) = 2"
proof -
  let ?x = "[[(''title'', ''one'')], [(''ID'', ''a'')], [(''title'', ''two'')],
      [(''title'', ''three'')]]"
  have 1: "fst (remove_duplicates_by_doi ?x []) = [[(''title'', ''one'')], [(''ID'', ''a'')]]"
    by code_simp
  have 2: "length (filter (\<lambda>e. dict_get e ''ID'' = None) ?x) - 1 = 2"
    by code_simp
  show ?thesis
    using C9_identifierless_records [of ?x "[]"] 1 unfolding 2 by blast
qed




section \<open>Properties of \<open>standardize_bibtex_file\<close>\<close>

subsection \<open>The standardizer\<close>

lemma not_missing_iff:
  "\<not> id_or_type_missing e \<longleftrightarrow>
     (\<exists>i t. dict_get e ''ID'' = Some i \<and> dict_get e ''ENTRYTYPE'' = Some t \<and> i \<noteq> [] \<and> t \<noteq> [])"
  by (auto simp: id_or_type_missing_def is_falsy_def split: option.splits)

lemma standardize_step_missing:
  "id_or_type_missing e \<Longrightarrow>
   standardize_step ids e = (ids, [], [Warn_missing_id_or_type e])"
  by (auto simp: standardize_step_def id_or_type_missing_def is_falsy_def split: option.splits)

lemma standardize_step_dup:
  "dict_get e ''ID'' = Some i \<Longrightarrow> dict_get e ''ENTRYTYPE'' = Some t \<Longrightarrow> i \<noteq> [] \<Longrightarrow> t \<noteq> [] \<Longrightarrow>
   i \<in> ids \<Longrightarrow> standardize_step ids e = (ids, [], [Warn_duplicate_id i])"
  by (simp add: standardize_step_def)

lemma standardize_step_emit:
  "dict_get e ''ID'' = Some i \<Longrightarrow> dict_get e ''ENTRYTYPE'' = Some t \<Longrightarrow> i \<noteq> [] \<Longrightarrow> t \<noteq> [] \<Longrightarrow>
   i \<notin> ids \<Longrightarrow>
   standardize_step ids e = (insert i ids, [fst (final_entry i t e)], snd (final_entry i t e))"
  by (simp add: standardize_step_def split_beta)

lemma standardize_loop_Cons:
  "standardize_loop ids (e # es) =
     (fst (snd (standardize_step ids e)) @
        fst (standardize_loop (fst (standardize_step ids e)) es),
      snd (snd (standardize_step ids e)) @
        snd (standardize_loop (fst (standardize_step ids e)) es))"
  by (simp add: split_beta)

lemma normalize_doi_log:
  "snd (normalize_doi x) = [] \<or> (\<exists>s. snd (normalize_doi x) = [Warn_doi_pattern s])"
  by (cases x) (auto simp: Let_def split: option.splits)

lemma final_entry_log:
  "filter (\<lambda>l. l = Warn_duplicate_id j) (snd (final_entry i t e)) = []"
  using normalize_doi_log
    [of "Some (case standardized_entry_data e ''doi'' of None \<Rightarrow> [] | Some v \<Rightarrow> v)"]
  by (auto simp: final_entry_def standardized_fields_def split_beta Let_def)

lemma final_entry_ID: "dict_get (fst (final_entry i t e)) ''ID'' = Some i"
  by (simp add: final_entry_def dict_get_def split_beta)

lemma final_entry_keys:
  "map fst (fst (final_entry i t e)) = ''ID'' # ''ENTRYTYPE'' # essential_fields"
  by (simp add: final_entry_def split_beta comp_def)

lemma standardize_loop_skip:
  assumes "id_or_type_missing e"
  shows "fst (standardize_loop ids (pre @ e # post)) = fst (standardize_loop ids (pre @ post)) \<and>
         Warn_missing_id_or_type e \<in> set (snd (standardize_loop ids (pre @ e # post)))"
proof (induction pre arbitrary: ids)
  case Nil
  show ?case
    using assms by (simp add: standardize_loop_Cons standardize_step_missing del: standardize_loop.simps)
next
  case (Cons p pre)
  show ?case
    using Cons [of "fst (standardize_step ids p)"]
    by (simp add: standardize_loop_Cons del: standardize_loop.simps)
qed

lemma standardize_loop_all:
  assumes "list_all (\<lambda>r. \<not> id_or_type_missing r) es" "distinct (map (\<lambda>r. dict_get r ''ID'') es)"
    "\<forall>r\<in>set es. dict_get r ''ID'' \<notin> Some ` ids"
  shows "length (fst (standardize_loop ids es)) = length es"
  using assms
proof (induction es arbitrary: ids)
  case Nil
  show ?case by simp
next
  case (Cons e es)
  from Cons.prems(1) obtain i t where e: "dict_get e ''ID'' = Some i"
      "dict_get e ''ENTRYTYPE'' = Some t" "i \<noteq> []" "t \<noteq> []"
    using not_missing_iff [of e] by auto
  have fresh: "i \<notin> ids"
    using Cons.prems(3) e(1) by auto
  have "\<forall>r\<in>set es. dict_get r ''ID'' \<notin> Some ` insert i ids"
  proof
    fix r assume r: "r \<in> set es"
    have "dict_get e ''ID'' \<notin> (\<lambda>r. dict_get r ''ID'') ` set es"
      using Cons.prems(2) by simp
    then have "dict_get r ''ID'' \<noteq> Some i"
      using r e(1) by (metis imageI)
    moreover have "dict_get r ''ID'' \<notin> Some ` ids"
      using Cons.prems(3) r by simp
    ultimately show "dict_get r ''ID'' \<notin> Some ` insert i ids"
      by simp
  qed
  then have "length (fst (standardize_loop (insert i ids) es)) = length es"
    using Cons.IH [of "insert i ids"] Cons.prems(1,2) by simp
  then show ?case
    by (simp add: standardize_loop_Cons standardize_step_emit [OF e fresh]
          del: standardize_loop.simps)
qed

lemma standardize_loop_outputs:
  "r \<in> set (fst (standardize_loop ids es)) \<Longrightarrow>
   \<exists>e\<in>set es. \<exists>i t. r = fst (final_entry i t e)"
proof (induction es arbitrary: ids)
  case Nil
  then show ?case by simp
next
  case (Cons e es)
  show ?case
  proof (cases "r \<in> set (fst (snd (standardize_step ids e)))")
    case True
    then have "\<exists>i t. r = fst (final_entry i t e)"
      by (auto simp: standardize_step_def split_beta split: option.splits if_splits)
    then show ?thesis by simp
  next
    case False
    with Cons.prems have "r \<in> set (fst (standardize_loop (fst (standardize_step ids e)) es))"
      by (simp add: standardize_loop_Cons del: standardize_loop.simps)
    then show ?thesis
      using Cons.IH by auto
  qed
qed

lemma standardize_loop_seen:
  assumes "i \<noteq> []" "i \<in> ids"
  shows "filter (\<lambda>r. dict_get r ''ID'' = Some i) (fst (standardize_loop ids es)) = [] \<and>
         length (filter (\<lambda>l. l = Warn_duplicate_id i) (snd (standardize_loop ids es))) =
           length (filter (\<lambda>e. dict_get e ''ID'' = Some i \<and>
                                \<not> is_falsy (dict_get e ''ENTRYTYPE'')) es)"
  using assms(2)
proof (induction es arbitrary: ids)
  case Nil
  show ?case by simp
next
  case (Cons e es)
  show ?case
  proof (cases "id_or_type_missing e")
    case True
    then have nv: "(dict_get e ''ID'' = Some i \<and> \<not> is_falsy (dict_get e ''ENTRYTYPE'')) = False"
      using assms(1) by (auto simp: id_or_type_missing_def is_falsy_def)
    show ?thesis
      using Cons.IH [OF Cons.prems] True
      by (simp add: standardize_loop_Cons standardize_step_missing nv del: standardize_loop.simps)
  next
    case False
    then obtain j t where e: "dict_get e ''ID'' = Some j" "dict_get e ''ENTRYTYPE'' = Some t"
        "j \<noteq> []" "t \<noteq> []"
      using not_missing_iff [of e] by auto
    have ty: "\<not> is_falsy (dict_get e ''ENTRYTYPE'')"
      using e by (simp add: is_falsy_def)
    show ?thesis
    proof (cases "j \<in> ids")
      case True
      then show ?thesis
        using Cons.IH [OF Cons.prems] e ty
        by (auto simp: standardize_loop_Cons standardize_step_dup [OF e True]
              simp del: standardize_loop.simps)
    next
      case False
      then have ne: "j \<noteq> i"
        using Cons.prems by auto
      have "i \<in> insert j ids"
        using Cons.prems by simp
      then show ?thesis
        using Cons.IH [of "insert j ids"] e ne
        by (simp add: standardize_loop_Cons standardize_step_emit [OF e False]
              final_entry_ID final_entry_log del: standardize_loop.simps)
    qed
  qed
qed

lemma standardize_loop_fresh:
  assumes "i \<noteq> []" "i \<notin> ids"
  shows "filter (\<lambda>r. dict_get r ''ID'' = Some i) (fst (standardize_loop ids es)) =
           (case filter (\<lambda>e. dict_get e ''ID'' = Some i \<and>
                              \<not> is_falsy (dict_get e ''ENTRYTYPE'')) es of
              [] \<Rightarrow> []
            | e1 # later \<Rightarrow> [fst (final_entry i (dict_get_or e1 ''ENTRYTYPE'' []) e1)]) \<and>
         length (filter (\<lambda>l. l = Warn_duplicate_id i) (snd (standardize_loop ids es))) =
           length (filter (\<lambda>e. dict_get e ''ID'' = Some i \<and>
                                \<not> is_falsy (dict_get e ''ENTRYTYPE'')) es) - 1"
  using assms(2)
proof (induction es arbitrary: ids)
  case Nil
  show ?case by simp
next
  case (Cons e es)
  show ?case
  proof (cases "id_or_type_missing e")
    case True
    then have nv: "(dict_get e ''ID'' = Some i \<and> \<not> is_falsy (dict_get e ''ENTRYTYPE'')) = False"
      using assms(1) by (auto simp: id_or_type_missing_def is_falsy_def)
    show ?thesis
      using Cons.IH [OF Cons.prems] True
      by (simp add: standardize_loop_Cons standardize_step_missing nv del: standardize_loop.simps)
  next
    case False
    then obtain j t where e: "dict_get e ''ID'' = Some j" "dict_get e ''ENTRYTYPE'' = Some t"
        "j \<noteq> []" "t \<noteq> []"
      using not_missing_iff [of e] by auto
    have ty: "\<not> is_falsy (dict_get e ''ENTRYTYPE'')"
      using e by (simp add: is_falsy_def)
    have tv: "dict_get_or e ''ENTRYTYPE'' [] = t"
      using e(2) by (simp add: dict_get_or_def dict_get_def)
    show ?thesis
    proof (cases "j \<in> ids")
      case True
      then have "j \<noteq> i"
        using Cons.prems by auto
      then show ?thesis
        using Cons.IH [OF Cons.prems] e
        by (simp add: standardize_loop_Cons standardize_step_dup [OF e True]
              del: standardize_loop.simps)
    next
      case False
      show ?thesis
      proof (cases "j = i")
        case True
        have "i \<in> insert j ids"
          using True by simp
        then show ?thesis
          using standardize_loop_seen [OF assms(1), of "insert j ids" es] e ty tv True
          by (simp add: standardize_loop_Cons standardize_step_emit [OF e False]
                final_entry_ID final_entry_log del: standardize_loop.simps)
      next
        case ne: False
        then have "i \<notin> insert j ids"
          using Cons.prems by simp
        then show ?thesis
          using Cons.IH [of "insert j ids"] e ne
          by (simp add: standardize_loop_Cons standardize_step_emit [OF e False]
                final_entry_ID final_entry_log del: standardize_loop.simps)
      qed
    qed
  qed
qed

subsection \<open>The fields of a canonical record\<close>

lemma standardized_entry_data_absent:
  assumes "f \<notin> set (map (\<lambda>(k, v). lower k) e)"
  shows "standardized_entry_data e f = None"
proof -
  have "fold (\<lambda>(k, v) d. if k \<in> set [''ID'', ''ENTRYTYPE''] then d else d(lower k \<mapsto> v)) e d f
      = d f" for d
    using assms by (induction e arbitrary: d) (auto simp: split_beta)
  then show ?thesis
    by (simp add: standardized_entry_data_def)
qed

lemma fill_fold:
  "fold (\<lambda>field m. if m field = None then m(field \<mapsto> []) else m) fs d f =
     (if f \<in> set fs \<and> d f = None then Some [] else d f)"
  by (induction fs arbitrary: d) auto

lemma fill_essential_apply:
  "fill_essential d f = (if f \<in> set essential_fields \<and> d f = None then Some [] else d f)"
  unfolding fill_essential_def by (rule fill_fold)

lemma consolidate_journal_other:
  "f \<noteq> ''journal'' \<Longrightarrow> consolidate_journal d f = d f"
  by (simp add: consolidate_journal_def split: option.splits)

lemma consolidate_journal_empty:
  "d ''journal'' = Some [] \<Longrightarrow> d ''booktitle'' = Some b \<Longrightarrow>
   consolidate_journal d ''journal'' = Some b"
  by (simp add: consolidate_journal_def is_falsy_def)

lemma map_of_key_map: "f \<in> set ks \<Longrightarrow> map_of (map (\<lambda>k. (k, g k)) ks) f = Some (g f)"
  by (induction ks) auto

lemma final_entry_get:
  assumes "f \<in> set essential_fields"
  shows "dict_get (fst (final_entry i t e)) f =
     Some (case fst (standardized_fields e) f of None \<Rightarrow> [] | Some v \<Rightarrow> v)"
proof -
  have ne: "f \<noteq> ''ID''" "f \<noteq> ''ENTRYTYPE''"
    using assms by (auto simp: essential_fields_def)
  show ?thesis
    using ne assms by (simp add: final_entry_def dict_get_def split_beta map_of_key_map)
qed

lemma standardized_fields_absent:
  assumes "f \<in> set essential_fields" "f \<notin> set (map (\<lambda>(k, v). lower k) e)"
  shows "fst (standardized_fields e) f =
     (if f = ''journal'' then fst (standardized_fields e) ''booktitle'' else Some [])"
proof -
  let ?d0 = "standardized_entry_data e"
  let ?doi = "fst (normalize_doi (Some (case ?d0 ''doi'' of None \<Rightarrow> [] | Some v \<Rightarrow> v)))"
  let ?d1 = "?d0(''doi'' \<mapsto> ?doi)"
  have sf: "fst (standardized_fields e) = consolidate_journal (fill_essential ?d1)"
    by (simp add: standardized_fields_def split_beta Let_def)
  have d0: "?d0 f = None"
    using assms(2) by (rule standardized_entry_data_absent)
  show ?thesis
  proof (cases "f = ''journal''")
    case True
    have j: "fill_essential ?d1 ''journal'' = Some []"
      using d0 True by (simp add: fill_essential_apply essential_fields_def)
    obtain b where b: "fill_essential ?d1 ''booktitle'' = Some b"
      by (cases "?d1 ''booktitle''") (simp_all add: fill_essential_apply essential_fields_def)
    have "consolidate_journal (fill_essential ?d1) ''journal'' = Some b"
      using j b by (rule consolidate_journal_empty)
    moreover have "consolidate_journal (fill_essential ?d1) ''booktitle'' = Some b"
      using b by (simp add: consolidate_journal_other)
    ultimately show ?thesis
      using True by (simp add: sf)
  next
    case False
    show ?thesis
    proof (cases "f = ''doi''")
      case True
      then have "?doi = []"
        using d0 by simp
      then show ?thesis
        using True by (simp add: sf consolidate_journal_other fill_essential_apply)
    next
      case nd: False
      then have "?d1 f = None"
        using d0 by simp
      then show ?thesis
        using False assms(1) by (simp add: sf consolidate_journal_other fill_essential_apply)
    qed
  qed
qed

section \<open>Claims about \<open>standardize_bibtex_file\<close>\<close>

text \<open>
  C2 (as amended). Every record produced by \<open>standardize_bibtex_file\<close> has, after \<open>ID\<close>
  and \<open>ENTRYTYPE\<close>, exactly the twelve fields \<open>doi\<close>, \<open>title\<close>, \<open>abstract\<close>, \<open>keywords\<close>,
  \<open>author\<close>, \<open>year\<close>, \<open>publisher\<close>, \<open>journal\<close>, \<open>booktitle\<close>, \<open>pages\<close>, \<open>volume\<close>, \<open>number\<close>,
  in this order, whatever fields the raw record has. It is built from a record of the
  batch, and a field that the raw record lacks under every spelling of its name has the
  empty string, except \<open>journal\<close>, which then has the value of \<open>booktitle\<close>.
\<close>

theorem C2_canonical_fields:
  assumes "r \<in> set (fst (standardize_bibtex_file es))"
  shows "map fst r = [''ID'', ''ENTRYTYPE'', ''doi'', ''title'', ''abstract'', ''keywords'',
           ''author'', ''year'', ''publisher'', ''journal'', ''booktitle'', ''pages'',
           ''volume'', ''number''] \<and>
         (\<exists>e\<in>set es. \<exists>i t. r = fst (final_entry i t e) \<and>
            (\<forall>f\<in>set essential_fields. f \<notin> set (map (\<lambda>(k, v). lower k) e) \<longrightarrow>
               dict_get r f = (if f = ''journal'' then dict_get r ''booktitle'' else Some [])))"
proof -
  from assms obtain e i t where e: "e \<in> set es" and r: "r = fst (final_entry i t e)"
    unfolding standardize_bibtex_file_def using standardize_loop_outputs by blast
  have keys: "map fst r = [''ID'', ''ENTRYTYPE'', ''doi'', ''title'', ''abstract'', ''keywords'',
      ''author'', ''year'', ''publisher'', ''journal'', ''booktitle'', ''pages'', ''volume'',
      ''number'']"
    unfolding r final_entry_keys by (simp add: essential_fields_def)
  have bt: "''booktitle'' \<in> set essential_fields"
    by (simp add: essential_fields_def)
  have "dict_get r f = (if f = ''journal'' then dict_get r ''booktitle'' else Some [])"
    if "f \<in> set essential_fields" "f \<notin> set (map (\<lambda>(k, v). lower k) e)" for f
    unfolding r final_entry_get [OF that(1)] final_entry_get [OF bt]
      standardized_fields_absent [OF that]
    by simp
  with e r keys show ?thesis
    by blast
qed

theorem C2_canonical_fields_witness:
  "[(''ID'', ''a''), (''ENTRYTYPE'', ''article''), (''doi'', []), (''title'', ''T''),
    (''abstract'', []), (''keywords'', []), (''author'', []), (''year'', []),
    (''publisher'', []), (''journal'', []), (''booktitle'', []), (''pages'', []),
    (''volume'', []), (''number'', [])]
     \<in> set (fst (standardize_bibtex_file
          [[(''ID'', ''a''), (''ENTRYTYPE'', ''article''), (''Title'', ''T'')]])) \<and>
   map fst [(''ID'', ''a''), (''ENTRYTYPE'', ''article''), (''doi'', []), (''title'', ''T''),
    (''abstract'', []), (''keywords'', []), (''author'', []), (''year'', []),
    (''publisher'', []), (''journal'', []), (''booktitle'', []), (''pages'', []),
    (''volume'', []), (''number'', [])] =
     [''ID'', ''ENTRYTYPE'', ''doi'', ''title'', ''abstract'', ''keywords'', ''author'',
      ''year'', ''publisher'', ''journal'', ''booktitle'', ''pages'', ''volume'', ''number'']"
proof -
  let ?r = "[(''ID'', ''a''), (''ENTRYTYPE'', ''article''), (''doi'', []), (''title'', ''T''),
    (''abstract'', []), (''keywords'', []), (''author'', []), (''year'', []),
    (''publisher'', []), (''journal'', []), (''booktitle'', []), (''pages'', []),
    (''volume'', []), (''number'', [])]"
  have h: "?r \<in> set (fst (standardize_bibtex_file
      [[(''ID'', ''a''), (''ENTRYTYPE'', ''article''), (''Title'', ''T'')]]))"
    by code_simp
  show ?thesis
    using C2_canonical_fields [OF h] h by blast
qed

text \<open>
  C2 as stated fails: the record produced from a raw record with identifier and type tag
  alone has twelve fields after \<open>ID\<close> and \<open>ENTRYTYPE\<close>, \<open>booktitle\<close> among them.
\<close>

theorem C2_counterexample:
  "fst (standardize_bibtex_file [[(''ID'', ''a''), (''ENTRYTYPE'', ''article'')]]) =
     [[(''ID'', ''a''), (''ENTRYTYPE'', ''article''), (''doi'', []), (''title'', []),
       (''abstract'', []), (''keywords'', []), (''author'', []), (''year'', []),
       (''publisher'', []), (''journal'', []), (''booktitle'', []), (''pages'', []),
       (''volume'', []), (''number'', [])]]"
  by code_simp

text \<open>
  C6 (as amended). For a non-empty identifier \<open>i\<close>, the records of the batch that carry
  \<open>i\<close> and a type tag decide: when there is none, no record is produced for \<open>i\<close>;
  otherwise exactly one is, built from the first of them, and each later one is skipped
  with the duplicate warning for \<open>i\<close>. Occurrences without a type tag are skipped by the
  check for missing fields and do not count as seen.
\<close>

theorem C6_first_occurrence_wins:
  assumes "i \<noteq> []"
  shows "filter (\<lambda>r. dict_get r ''ID'' = Some i) (fst (standardize_bibtex_file es)) =
           (case filter (\<lambda>e. dict_get e ''ID'' = Some i \<and>
                              \<not> is_falsy (dict_get e ''ENTRYTYPE'')) es of
              [] \<Rightarrow> []
            | e1 # later \<Rightarrow> [fst (final_entry i (dict_get_or e1 ''ENTRYTYPE'' []) e1)]) \<and>
         length (filter (\<lambda>l. l = Warn_duplicate_id i) (snd (standardize_bibtex_file es))) =
           length (filter (\<lambda>e. dict_get e ''ID'' = Some i \<and>
                                \<not> is_falsy (dict_get e ''ENTRYTYPE'')) es) - 1"
  unfolding standardize_bibtex_file_def using assms by (intro standardize_loop_fresh) simp_all

theorem C6_first_occurrence_wins_witness:
  "''k'' \<noteq> [] \<and>
   filter (\<lambda>r. dict_get r ''ID'' = Some ''k'')
     (fst (standardize_bibtex_file
        [[(''ID'', ''k''), (''ENTRYTYPE'', ''article''), (''title'', ''first'')],
         [(''ID'', ''j''), (''ENTRYTYPE'', ''book'')],
         [(''ID'', ''k''), (''ENTRYTYPE'', ''misc''), (''title'', ''second'')]])) =
     [fst (final_entry ''k'' ''article''
        [(''ID'', ''k''), (''ENTRYTYPE'', ''article''), (''title'', ''first'')])] \<and>
   length (filter (\<lambda>l. l = Warn_duplicate_id ''k'')
     (snd (standardize_bibtex_file
        [[(''ID'', ''k''), (''ENTRYTYPE'', ''article''), (''title'', ''first'')],
         [(''ID'', ''j''), (''ENTRYTYPE'', ''book'')],
         [(''ID'', ''k''), (''ENTRYTYPE'', ''misc''), (''title'', ''second'')]]))) = 1"
proof -
  let ?e1 = "[(''ID'', ''k''), (''ENTRYTYPE'', ''article''), (''title'', ''first'')]"
  let ?e2 = "[(''ID'', ''j''), (''ENTRYTYPE'', ''book'')]"
  let ?e3 = "[(''ID'', ''k''), (''ENTRYTYPE'', ''misc''), (''title'', ''second'')]"
  have h: "''k'' \<noteq> []"
    by simp
  have f: "filter (\<lambda>e. dict_get e ''ID'' = Some ''k'' \<and> \<not> is_falsy (dict_get e ''ENTRYTYPE''))
      [?e1, ?e2, ?e3] = [?e1, ?e3]"
    by code_simp
  have t: "dict_get_or ?e1 ''ENTRYTYPE'' [] = ''article''"
    by code_simp
  show ?thesis
    using C6_first_occurrence_wins [OF h, of "[?e1, ?e2, ?e3]"] unfolding f
    by (simp add: t)
qed

text \<open>
  C6 as stated fails: the first of the two records sharing the identifier \<open>k\<close> has no type
  tag, and the record produced for \<open>k\<close> is built from the second.
\<close>

theorem C6_counterexample:
  "fst (standardize_bibtex_file
      [[(''ID'', ''k''), (''title'', ''first'')],
       [(''ID'', ''k''), (''ENTRYTYPE'', ''article''), (''title'', ''second'')]]) =
     [[(''ID'', ''k''), (''ENTRYTYPE'', ''article''), (''doi'', []), (''title'', ''second''),
       (''abstract'', []), (''keywords'', []), (''author'', []), (''year'', []),
       (''publisher'', []), (''journal'', []), (''booktitle'', []), (''pages'', []),
       (''volume'', []), (''number'', [])]]"
  by code_simp

text \<open>
  C8 (as amended). A record whose identifier or type tag is missing (absent or empty) is
  skipped with the warning for missing fields, and the rest of the batch is processed as
  if the record were not there. When every other record of the batch has identifier and
  type tag and their identifiers are pairwise distinct, the number of records produced is
  one less than the number of records of the batch.
\<close>

theorem C8_missing_fields_skipped:
  assumes "id_or_type_missing e"
  shows "fst (standardize_bibtex_file (pre @ e # post)) =
           fst (standardize_bibtex_file (pre @ post)) \<and>
         Warn_missing_id_or_type e \<in> set (snd (standardize_bibtex_file (pre @ e # post))) \<and>
         (list_all (\<lambda>r. \<not> id_or_type_missing r) (pre @ post) \<and>
          distinct (map (\<lambda>r. dict_get r ''ID'') (pre @ post)) \<longrightarrow>
            length (fst (standardize_bibtex_file (pre @ e # post))) =
              length (pre @ e # post) - 1)"
proof -
  have skip: "fst (standardize_bibtex_file (pre @ e # post)) =
      fst (standardize_bibtex_file (pre @ post))"
    and warn: "Warn_missing_id_or_type e \<in> set (snd (standardize_bibtex_file (pre @ e # post)))"
    unfolding standardize_bibtex_file_def using standardize_loop_skip [OF assms] by blast+
  have "length (fst (standardize_bibtex_file (pre @ post))) = length (pre @ post)"
    if "list_all (\<lambda>r. \<not> id_or_type_missing r) (pre @ post)"
      "distinct (map (\<lambda>r. dict_get r ''ID'') (pre @ post))"
    unfolding standardize_bibtex_file_def using that by (intro standardize_loop_all) simp_all
  with skip warn show ?thesis
    by simp
qed

theorem C8_missing_fields_skipped_witness:
  "id_or_type_missing [(''ID'', ''b'')] \<and>
   list_all (\<lambda>r. \<not> id_or_type_missing r)
     ([[(''ID'', ''a''), (''ENTRYTYPE'', ''article'')]] @ [[(''ID'', ''c''), (''ENTRYTYPE'', ''book'')]]) \<and>
   distinct (map (\<lambda>r. dict_get r ''ID'')
     ([[(''ID'', ''a''), (''ENTRYTYPE'', ''article'')]] @ [[(''ID'', ''c''), (''ENTRYTYPE'', ''book'')]])) \<and>
   length (fst (standardize_bibtex_file
     ([[(''ID'', ''a''), (''ENTRYTYPE'', ''article'')]] @ [(''ID'', ''b'')] #
      [[(''ID'', ''c''), (''ENTRYTYPE'', ''book'')]]))) = 2 \<and>
   Warn_missing_id_or_type [(''ID'', ''b'')] \<in> set (snd (standardize_bibtex_file
     ([[(''ID'', ''a''), (''ENTRYTYPE'', ''article'')]] @ [(''ID'', ''b'')] #
      [[(''ID'', ''c''), (''ENTRYTYPE'', ''book'')]])))"
proof -
  let ?pre = "[[(''ID'', ''a''), (''ENTRYTYPE'', ''article'')]]"
  let ?post = "[[(''ID'', ''c''), (''ENTRYTYPE'', ''book'')]]"
  have h1: "id_or_type_missing [(''ID'', ''b'')]"
    by code_simp
  have h2: "list_all (\<lambda>r. \<not> id_or_type_missing r) (?pre @ ?post)"
    by code_simp
  have h3: "distinct (map (\<lambda>r. dict_get r ''ID'') (?pre @ ?post))"
    by code_simp
  have n: "length (?pre @ [(''ID'', ''b'')] # ?post) - 1 = 2"
    by simp
  show ?thesis
    using C8_missing_fields_skipped [OF h1, of ?pre ?post] h1 h2 h3 unfolding n by blast
qed

text \<open>
  C8 as stated fails: exactly one record of the batch below lacks its type tag, the batch
  has three records, and one record is produced, because the second record repeats the
  identifier of the first.
\<close>

theorem C8_counterexample:
  "is_falsy (dict_get [(''ID'', ''b'')] ''ENTRYTYPE'') \<and>
   \<not> is_falsy (dict_get [(''ID'', ''a''), (''ENTRYTYPE'', ''article'')] ''ENTRYTYPE'') \<and>
   \<not> is_falsy (dict_get [(''ID'', ''a''), (''ENTRYTYPE'', ''book'')] ''ENTRYTYPE'') \<and>
   length (fst (standardize_bibtex_file
      [[(''ID'', ''a''), (''ENTRYTYPE'', ''article'')],
       [(''ID'', ''a''), (''ENTRYTYPE'', ''book'')],
       [(''ID'', ''b'')]])) = 1"
  by code_simp

end
